theory Spec2Isabelle
  imports
    Complex_Main
    "HOL-Library.Multiset"
    "HOL-Library.Char_ord"
    "HOL-Library.List_Lexorder"
    "HOL-Library.Product_Lexorder"
begin

section \<open>Data model\<close>

text \<open>
  The types of the solver (\<^verbatim>\<open>types.ts\<close>).  A TypeScript \<^verbatim>\<open>number\<close> that holds a quantity,
  a value or a probability is modelled as a \<^typ>\<open>real\<close>: the arithmetic of the model is exact,
  the rounding of IEEE doubles is not modelled.  The upgrade count \<^verbatim>\<open>k\<close> of a plot is a
  \<^typ>\<open>nat\<close>: the callers start it at 0 and only ever add 1 or 2 to it.
\<close>

datatype CropColor = Purple | Blue | Yellow

datatype Side = SLeft | SRight

record GameParams =
  buyCountPurple :: real
  buyCountBlue :: real
  buyCountYellow :: real
  probSurvival :: real
  valL1 :: real
  valL2 :: real
  valL3 :: real
  valL4 :: real
  probL1toL2 :: real
  probL2toL3 :: real
  probL3toL4 :: real

record LogicPlot =
  fieldId :: string
  side :: Side
  color :: CropColor
  k :: nat

record SolveResult =
  maxEV :: real
  path :: "string list"
  bestMoveId :: "string option"

section \<open>Seed value: \<^verbatim>\<open>getSeedEV\<close>\<close>

text \<open>
  The state vector \<^verbatim>\<open>[ProbL1, ProbL2, ProbL3, ProbL4]\<close> is a 4-tuple.  \<open>seedStep\<close> is one pass
  of the loop body (\<^verbatim>\<open>nextP\<close> starts at zero and is added to), \<open>seedLoop\<close> runs it \<^verbatim>\<open>k\<close> times.
\<close>

type_synonym probVec = "real \<times> real \<times> real \<times> real"

definition seedStep :: "GameParams \<Rightarrow> probVec \<Rightarrow> probVec" where
  "seedStep params p =
     (case p of (p0, p1, p2, p3) \<Rightarrow>
        (0 + p0 * (1 - probL1toL2 params),
         0 + p0 * probL1toL2 params + p1 * (1 - probL2toL3 params),
         0 + p1 * probL2toL3 params + p2 * (1 - probL3toL4 params),
         0 + p2 * probL3toL4 params + p3 * 1.0))"

fun seedLoop :: "nat \<Rightarrow> GameParams \<Rightarrow> probVec \<Rightarrow> probVec" where
  "seedLoop 0 params p = p"
| "seedLoop (Suc n) params p = seedLoop n params (seedStep params p)"

definition getSeedEV :: "nat \<Rightarrow> GameParams \<Rightarrow> real" where
  "getSeedEV n params =
     (case seedLoop n params (1.0, 0.0, 0.0, 0.0) of (p0, p1, p2, p3) \<Rightarrow>
        p0 * valL1 params + p1 * valL2 params + p2 * valL3 params + p3 * valL4 params)"

section \<open>Crop multiplier: \<^verbatim>\<open>getCropMultiplier\<close>\<close>

definition currentCount :: "CropColor \<Rightarrow> GameParams \<Rightarrow> real" where
  "currentCount c params =
     (case c of
        Purple \<Rightarrow> buyCountPurple params
      | Blue \<Rightarrow> buyCountBlue params
      | Yellow \<Rightarrow> buyCountYellow params)"

definition getCropMultiplier :: "CropColor \<Rightarrow> GameParams \<Rightarrow> real" where
  "getCropMultiplier c params =
     (let maxCount = max (max (buyCountPurple params) (buyCountBlue params)) (buyCountYellow params)
      in if currentCount c params \<le> 0 then 0 else maxCount / currentCount c params)"


section \<open>State key: \<^verbatim>\<open>generateKey\<close>\<close>

text \<open>
  \<^verbatim>\<open>localeCompare\<close> is a library function of the platform.  It is modelled as the three-way
  comparison of a total order on strings (the lexicographic order of the character codes): the
  result is 0 exactly for equal strings.  How the collation of the platform ranks letters is
  not modelled; the identifiers of the callers are \<^verbatim>\<open>field1\<close>, \<^verbatim>\<open>field2\<close>, ... and the sides
  \<^verbatim>\<open>left\<close>, \<^verbatim>\<open>right\<close>.
\<close>

definition localeCompare :: "string \<Rightarrow> string \<Rightarrow> int" where
  "localeCompare a b = (if a < b then - 1 else if a = b then 0 else 1)"

definition sideName :: "Side \<Rightarrow> string" where
  "sideName s = (case s of SLeft \<Rightarrow> ''left'' | SRight \<Rightarrow> ''right'')"

definition colorName :: "CropColor \<Rightarrow> string" where
  "colorName c = (case c of Purple \<Rightarrow> ''purple'' | Blue \<Rightarrow> ''blue'' | Yellow \<Rightarrow> ''yellow'')"

text \<open>The comparator handed to \<^verbatim>\<open>sort\<close>.\<close>

definition comparePlots :: "LogicPlot \<Rightarrow> LogicPlot \<Rightarrow> int" where
  "comparePlots a b =
     (if fieldId a \<noteq> fieldId b then localeCompare (fieldId a) (fieldId b)
      else localeCompare (sideName (side a)) (sideName (side b)))"

text \<open>
  \<^verbatim>\<open>Array.prototype.sort\<close> is a stable sort: elements that compare equal keep their input
  order.  It is modelled as the stable insertion sort by the comparator.
\<close>

fun insertBy :: "('a \<Rightarrow> 'a \<Rightarrow> int) \<Rightarrow> 'a \<Rightarrow> 'a list \<Rightarrow> 'a list" where
  "insertBy cmp x [] = [x]"
| "insertBy cmp x (y # ys) = (if cmp x y \<le> 0 then x # y # ys else y # insertBy cmp x ys)"

definition sortBy :: "('a \<Rightarrow> 'a \<Rightarrow> int) \<Rightarrow> 'a list \<Rightarrow> 'a list" where
  "sortBy cmp xs = foldr (insertBy cmp) xs []"

text \<open>The decimal digits of a number, as a template literal prints the counter \<^verbatim>\<open>k\<close>.\<close>

definition digitChar :: "nat \<Rightarrow> char" where
  "digitChar d = ''0123456789'' ! d"

fun showNat :: "nat \<Rightarrow> string" where
  "showNat n = (if n < 10 then [digitChar n] else showNat (n div 10) @ [digitChar (n mod 10)])"

declare showNat.simps [simp del]

definition plotKey :: "LogicPlot \<Rightarrow> string" where
  "plotKey p =
     fieldId p @ '':'' @ sideName (side p) @ '':'' @ colorName (color p) @ '':'' @ showNat (k p)"

fun joinWith :: "string \<Rightarrow> string list \<Rightarrow> string" where
  "joinWith sep [] = []"
| "joinWith sep [x] = x"
| "joinWith sep (x # y # ys) = x @ sep @ joinWith sep (y # ys)"

definition generateKey :: "LogicPlot list \<Rightarrow> string" where
  "generateKey plots = joinWith ''|'' (map plotKey (sortBy comparePlots plots))"

section \<open>The solver: \<^verbatim>\<open>solve\<close>\<close>

text \<open>
  The display strings.  The CJK characters of the source are written as their UTF-8 bytes.
\<close>

definition displaySide :: "Side \<Rightarrow> string" where
  "displaySide s =
     (if s = SLeft then [CHR 0xE5, CHR 0xB7, CHR 0xA6] else [CHR 0xE5, CHR 0x8F, CHR 0xB3])"

definition colorMap :: "CropColor \<Rightarrow> string" where
  "colorMap c =
     (case c of
        Purple \<Rightarrow> [CHR 0xE7, CHR 0xB4, CHR 0xAB]
      | Blue \<Rightarrow> [CHR 0xE8, CHR 0x93, CHR 0x9D]
      | Yellow \<Rightarrow> [CHR 0xE9, CHR 0xBB, CHR 0x84])"

definition getPlotDisplayName :: "LogicPlot \<Rightarrow> string" where
  "getPlotDisplayName p =
     ''['' @ fieldId p @ '' '' @ displaySide (side p) @ ''] '' @ colorMap (color p)"

definition stepDesc :: "LogicPlot \<Rightarrow> string" where
  "stepDesc p =
     [CHR 0xE6, CHR 0x94, CHR 0xB6, CHR 0xE5, CHR 0x89, CHR 0xB2] @ '' ''
       @ getPlotDisplayName p @ '' (Lv.'' @ showNat (k p) @ '')''"

definition plotId :: "LogicPlot \<Rightarrow> string" where
  "plotId p = fieldId p @ ''-'' @ (if side p = SLeft then ''L'' else ''R'')"

text \<open>
  The module-level \<^verbatim>\<open>memo\<close> is a map from keys to results, passed in and returned.  A solver
  takes a plot list and the memo and returns the result with the memo it leaves behind.
\<close>

type_synonym memo = "string \<Rightarrow> SolveResult option"

type_synonym solver = "LogicPlot list \<Rightarrow> memo \<Rightarrow> (SolveResult \<times> memo) option"

definition clearMemo :: "memo" where
  "clearMemo = Map.empty"

text \<open>Step 2 of the loop body: the plots other than the one at index \<open>i\<close>, the neighbour
  (the first other plot of the same field, if any) and the plots of the other fields.\<close>

definition otherPlots :: "LogicPlot list \<Rightarrow> nat \<Rightarrow> LogicPlot list" where
  "otherPlots plots i = map snd (filter (\<lambda>(idx, p). idx \<noteq> i) (enumerate 0 plots))"

definition neighborOf :: "LogicPlot \<Rightarrow> LogicPlot list \<Rightarrow> LogicPlot option" where
  "neighborOf cur others = find (\<lambda>p. fieldId p = fieldId cur) others"

definition nonNeighborsOf :: "LogicPlot \<Rightarrow> LogicPlot list \<Rightarrow> LogicPlot list" where
  "nonNeighborsOf cur others = filter (\<lambda>p. fieldId p \<noteq> fieldId cur) others"

text \<open>Step 3: the two successor states.\<close>

definition globalUpdate :: "LogicPlot \<Rightarrow> LogicPlot \<Rightarrow> LogicPlot" where
  "globalUpdate cur p = p\<lparr>k := (if color p \<noteq> color cur then k p + 1 else k p)\<rparr>"

definition nextPlotsA :: "LogicPlot \<Rightarrow> LogicPlot list \<Rightarrow> LogicPlot list" where
  "nextPlotsA cur others = map (globalUpdate cur) (nonNeighborsOf cur others)"

definition nextPlotsB :: "LogicPlot \<Rightarrow> LogicPlot \<Rightarrow> LogicPlot list \<Rightarrow> LogicPlot list" where
  "nextPlotsB cur nb others =
     nb\<lparr>k := (if color nb \<noteq> color cur then k nb + 2 else k nb)\<rparr>
       # map (globalUpdate cur) (nonNeighborsOf cur others)"

definition immediateGain :: "GameParams \<Rightarrow> LogicPlot \<Rightarrow> real" where
  "immediateGain params cur = getCropMultiplier (color cur) params * getSeedEV (k cur) params"

text \<open>
  Steps 1 to 4 of the loop body for the plot at index \<open>i\<close>: the total expected value of
  harvesting it and the result of branch A, with the memo after the recursive calls.  \<open>rec\<close> is
  the solver the body calls itself with.
\<close>

definition evalMove ::
  "solver \<Rightarrow> GameParams \<Rightarrow> LogicPlot list \<Rightarrow> nat \<Rightarrow> memo \<Rightarrow> ((real \<times> SolveResult) \<times> memo) option"
where
  "evalMove rec params plots i memo =
     (let currentPlot = plots ! i;
          others = otherPlots plots i;
          neighbor = neighborOf currentPlot others
      in case rec (nextPlotsA currentPlot others) memo of
           None \<Rightarrow> None
         | Some (resA, memo1) \<Rightarrow>
             (case (case neighbor of
                      None \<Rightarrow> Some (0, memo1)
                    | Some nb \<Rightarrow>
                        (case rec (nextPlotsB currentPlot nb others) memo1 of
                           None \<Rightarrow> None
                         | Some (resB, memo2) \<Rightarrow> Some (maxEV resB, memo2)))
              of
                None \<Rightarrow> None
              | Some (branchB_EV, memo2) \<Rightarrow>
                  Some ((if neighbor \<noteq> None
                         then immediateGain params currentPlot
                                + (1 - probSurvival params) * maxEV resA
                                + probSurvival params * branchB_EV
                         else immediateGain params currentPlot + maxEV resA,
                         resA),
                        memo2)))"

text \<open>Step 5: the comparison with the best result so far, strict.\<close>

definition solve_step ::
  "solver \<Rightarrow> GameParams \<Rightarrow> LogicPlot list \<Rightarrow> nat \<Rightarrow> SolveResult \<times> memo \<Rightarrow> (SolveResult \<times> memo) option"
where
  "solve_step rec params plots i st =
     (case st of (bestResult, memo) \<Rightarrow>
        (case evalMove rec params plots i memo of
           None \<Rightarrow> None
         | Some ((totalExpectedValue, resA), memo') \<Rightarrow>
             Some (if totalExpectedValue > maxEV bestResult
                   then \<lparr>maxEV = totalExpectedValue,
                         path = stepDesc (plots ! i) # path resA,
                         bestMoveId = Some (plotId (plots ! i))\<rparr>
                   else bestResult,
                   memo')))"

fun solve_loop :: "(nat \<Rightarrow> 's \<Rightarrow> 's option) \<Rightarrow> nat list \<Rightarrow> 's \<Rightarrow> 's option" where
  "solve_loop body [] st = Some st"
| "solve_loop body (i # is) st =
     (case body i st of None \<Rightarrow> None | Some st' \<Rightarrow> solve_loop body is st')"

text \<open>The initial \<^verbatim>\<open>bestResult\<close> and the result of the empty state.\<close>

definition sentinel :: SolveResult where
  "sentinel = \<lparr>maxEV = - 1, path = [], bestMoveId = None\<rparr>"

definition emptyResult :: SolveResult where
  "emptyResult = \<lparr>maxEV = 0, path = [], bestMoveId = None\<rparr>"

text \<open>
  One call of \<^verbatim>\<open>solve\<close>, with \<open>rec\<close> for its recursive calls.
\<close>

definition solve_body :: "solver \<Rightarrow> GameParams \<Rightarrow> solver" where
  "solve_body rec params plots memo =
     (if length plots = 0 then Some (emptyResult, memo)
      else
        let stateKey = generateKey plots in
        case memo stateKey of
          Some cached \<Rightarrow> Some (cached, memo)
        | None \<Rightarrow>
            (case solve_loop (solve_step rec params plots) [0..<length plots] (sentinel, memo) of
               None \<Rightarrow> None
             | Some (bestResult, memo') \<Rightarrow> Some (bestResult, memo'(stateKey \<mapsto> bestResult))))"

text \<open>
  The recursion of \<^verbatim>\<open>solve\<close> threads the memo through its calls, so it is defined with a bound
  on the depth of the recursion: \<open>None\<close> is a call stack deeper than the bound.  \<open>solve\<close> gives
  the call as much depth as it has plots, and one more.
\<close>

primrec solve_fuel :: "nat \<Rightarrow> GameParams \<Rightarrow> solver" where
  "solve_fuel 0 params = (\<lambda>plots memo. None)"
| "solve_fuel (Suc n) params = solve_body (solve_fuel n params) params"

definition solve :: "GameParams \<Rightarrow> solver" where
  "solve params plots memo = solve_fuel (Suc (length plots)) params plots memo"

section \<open>Predicates and inputs of the properties\<close>





text \<open>The parameters the application starts with (\<^verbatim>\<open>DEFAULT_PARAMS\<close>).\<close>

definition defaultParams :: GameParams where
  "defaultParams =
     \<lparr>buyCountPurple = 10000, buyCountBlue = 8000, buyCountYellow = 5500,
      probSurvival = 0.1,
      valL1 = 0, valL2 = 10, valL3 = 400, valL4 = 800,
      probL1toL2 = 0.25, probL2toL3 = 0.18, probL3toL4 = 0.1\<rparr>"

text \<open>The key the comparator sorts by: \<open>comparePlots a b \<le> 0\<close> exactly when the key of \<open>a\<close>
  is at most the key of \<open>b\<close>.\<close>

definition sortKey :: "LogicPlot \<Rightarrow> string \<times> string" where
  "sortKey p = (fieldId p, sideName (side p))"

text \<open>No field identifier of the list contains a delimiter of the key.\<close>

definition noDelims :: "LogicPlot list \<Rightarrow> bool" where
  "noDelims plots = list_all (\<lambda>p. CHR '':'' \<notin> set (fieldId p) \<and> CHR ''|'' \<notin> set (fieldId p)) plots"

text \<open>Plots of the list that the comparator cannot tell apart are the same plot.\<close>

definition sameKeySamePlot :: "LogicPlot list \<Rightarrow> bool" where
  "sameKeySamePlot plots = list_all (\<lambda>p. list_all (\<lambda>q. comparePlots p q = 0 \<longrightarrow> p = q) plots) plots"


definition twoFields :: "LogicPlot list" where
  "twoFields = [\<lparr>fieldId = ''field1'', side = SLeft, color = Purple, k = 0\<rparr>,
               \<lparr>fieldId = ''field1'', side = SRight, color = Blue, k = 0\<rparr>,
               \<lparr>fieldId = ''field2'', side = SLeft, color = Purple, k = 12\<rparr>]"

definition delimPlots :: "LogicPlot list" where
  "delimPlots = [\<lparr>fieldId = ''a:left:purple:0|b'', side = SLeft, color = Purple, k = 0\<rparr>]"

definition plainPlots :: "LogicPlot list" where
  "plainPlots = [\<lparr>fieldId = ''a'', side = SLeft, color = Purple, k = 0\<rparr>,
                 \<lparr>fieldId = ''b'', side = SLeft, color = Purple, k = 0\<rparr>]"

text \<open>The expected value of harvesting the plot \<open>cur\<close> when \<open>others\<close> are the other plots and
  \<open>ev\<close> gives the expected value of a successor state: step 4 of the loop body.\<close>

definition candidateEV ::
  "(LogicPlot list \<Rightarrow> real) \<Rightarrow> GameParams \<Rightarrow> LogicPlot \<Rightarrow> LogicPlot list \<Rightarrow> real"
where
  "candidateEV ev params cur others =
     (case neighborOf cur others of
        Some nb \<Rightarrow>
          immediateGain params cur
            + (1 - probSurvival params) * ev (nextPlotsA cur others)
            + probSurvival params * ev (nextPlotsB cur nb others)
      | None \<Rightarrow> immediateGain params cur + ev (nextPlotsA cur others))"

definition moveValue ::
  "(LogicPlot list \<Rightarrow> real) \<Rightarrow> GameParams \<Rightarrow> LogicPlot list \<Rightarrow> nat \<Rightarrow> real"
where
  "moveValue ev params plots i = candidateEV ev params (plots ! i) (otherPlots plots i)"

text \<open>The recursion of \<^verbatim>\<open>solve\<close> without the memo, for the expected value alone: the running
  maximum, from \<open>- 1\<close>, of the values of the moves.\<close>

primrec recEV_fuel :: "nat \<Rightarrow> GameParams \<Rightarrow> LogicPlot list \<Rightarrow> real" where
  "recEV_fuel 0 params = (\<lambda>plots. 0)"
| "recEV_fuel (Suc n) params =
     (\<lambda>plots. if plots = [] then 0
        else foldl max (- 1) (map (moveValue (recEV_fuel n params) params plots) [0..<length plots]))"

definition recEV :: "GameParams \<Rightarrow> LogicPlot list \<Rightarrow> real" where
  "recEV params plots = recEV_fuel (Suc (length plots)) params plots"

text \<open>The plot lists of the callers: the field identifiers contain no delimiter of the key,
  and no two plots have the same field identifier and side.\<close>

definition wellFormed :: "LogicPlot list \<Rightarrow> bool" where
  "wellFormed plots = (noDelims plots \<and> distinct (map sortKey plots))"

text \<open>A memo whose entries under the keys of well-formed plot lists hold the expected value
  of the plain recursion.\<close>

definition memoSound :: "GameParams \<Rightarrow> memo \<Rightarrow> bool" where
  "memoSound params m =
     (\<forall>ps r. wellFormed ps \<longrightarrow> m (generateKey ps) = Some r \<longrightarrow> maxEV r = recEV params ps)"

text \<open>The expected value \<^verbatim>\<open>solve\<close> returns from a cleared memo.  (\<open>solve\<close> always returns a
  result, as is proved below; the branch for \<open>None\<close> is never taken.)\<close>

definition solvedEV :: "GameParams \<Rightarrow> LogicPlot list \<Rightarrow> real" where
  "solvedEV params plots =
     (case solve params plots clearMemo of Some (r, memo') \<Rightarrow> maxEV r | None \<Rightarrow> 0)"

text \<open>The total expected values the loop of \<^verbatim>\<open>solve\<close> computes for the indices \<open>js\<close>, in
  order, the memo passing from each move to the next.\<close>

fun moveTotals ::
  "solver \<Rightarrow> GameParams \<Rightarrow> LogicPlot list \<Rightarrow> nat list \<Rightarrow> memo \<Rightarrow> real list option"
where
  "moveTotals rec params plots [] m = Some []"
| "moveTotals rec params plots (i # is) m =
     (case evalMove rec params plots i m of
        None \<Rightarrow> None
      | Some ((t, resA), m') \<Rightarrow>
          (case moveTotals rec params plots is m' of
             None \<Rightarrow> None
           | Some ts \<Rightarrow> Some (t # ts)))"

definition computedTotals :: "GameParams \<Rightarrow> LogicPlot list \<Rightarrow> memo \<Rightarrow> real list option" where
  "computedTotals params plots memo =
     moveTotals (solve params) params plots [0..<length plots] memo"

text \<open>Parameters with a negative tier-1 value, one plot, and two plots of the same colour and
  level in different fields.\<close>

definition lossParams :: GameParams where
  "lossParams = defaultParams\<lparr>valL1 := - 5\<rparr>"

definition onePlot :: "LogicPlot list" where
  "onePlot = [\<lparr>fieldId = ''field1'', side = SLeft, color = Purple, k = 0\<rparr>]"

definition tiePlots :: "LogicPlot list" where
  "tiePlots = [\<lparr>fieldId = ''field1'', side = SLeft, color = Purple, k = 1\<rparr>,
               \<lparr>fieldId = ''field2'', side = SLeft, color = Purple, k = 1\<rparr>]"

text \<open>The end-to-end scenario: two plots of one field, one purple and one blue, both at level
  0; survival probability 0, transition probabilities 0, equal reference quantities.\<close>

definition pairParams :: GameParams where
  "pairParams =
     \<lparr>buyCountPurple = 1, buyCountBlue = 1, buyCountYellow = 1,
      probSurvival = 0,
      valL1 = 10, valL2 = 20, valL3 = 30, valL4 = 40,
      probL1toL2 = 0, probL2toL3 = 0, probL3toL4 = 0\<rparr>"

definition pairPurple :: LogicPlot where
  "pairPurple = \<lparr>fieldId = ''field1'', side = SLeft, color = Purple, k = 0\<rparr>"

definition pairBlue :: LogicPlot where
  "pairBlue = \<lparr>fieldId = ''field1'', side = SRight, color = Blue, k = 0\<rparr>"

text \<open>Three plots, the first with a field identifier that contains the delimiters of the key:
  its key is the key of the other two together.\<close>

definition collidePlots :: "LogicPlot list" where
  "collidePlots =
     [\<lparr>fieldId = ''a:left:purple:1|b'', side = SLeft, color = Purple, k = 0\<rparr>,
      \<lparr>fieldId = ''a'', side = SLeft, color = Purple, k = 1\<rparr>,
      \<lparr>fieldId = ''b'', side = SLeft, color = Purple, k = 0\<rparr>]"

section \<open>Properties of the seed value\<close>







section \<open>Properties of the crop multiplier\<close>



section \<open>The recursion of the solver\<close>

lemma otherPlots_aux:
  "map snd (filter (\<lambda>(idx, p). idx \<noteq> n + i) (enumerate n xs)) = take i xs @ drop (Suc i) xs"
proof (induction xs arbitrary: n i)
  case Nil
  then show ?case by simp
next
  case (Cons x xs)
  show ?case
  proof (cases i)
    case 0
    have "filter (\<lambda>(idx, p). idx \<noteq> n) (enumerate (Suc n) xs) = enumerate (Suc n) xs"
      by (rule filter_True) (auto simp: in_set_enumerate_eq)
    then show ?thesis using 0 by simp
  next
    case (Suc j)
    from Cons.IH [of "Suc n" j] show ?thesis using Suc by simp
  qed
qed

lemma otherPlots_take_drop: "otherPlots plots i = take i plots @ drop (Suc i) plots"
  using otherPlots_aux [of 0 i plots] by (simp add: otherPlots_def)

lemma length_otherPlots: "i < length plots \<Longrightarrow> length (otherPlots plots i) < length plots"
  by (simp add: otherPlots_take_drop)

lemma length_nextPlotsA: "length (nextPlotsA cur others) \<le> length others"
  by (simp add: nextPlotsA_def nonNeighborsOf_def)

lemma length_nextPlotsB:
  assumes "neighborOf cur others = Some nb"
  shows "length (nextPlotsB cur nb others) \<le> length others"
proof -
  from assms have "nb \<in> set others" "fieldId nb = fieldId cur"
    by (auto simp: neighborOf_def find_Some_iff)
  then have "length (filter (\<lambda>p. fieldId p \<noteq> fieldId cur) others) < length others"
    by (intro length_filter_less [of nb]) auto
  then show ?thesis
    by (simp add: nextPlotsB_def nonNeighborsOf_def)
qed

lemma evalMove_cong:
  assumes "i < length plots"
    and "\<And>ps m. length ps < length plots \<Longrightarrow> rec ps m = rec' ps m"
  shows "evalMove rec params plots i memo = evalMove rec' params plots i memo"
proof -
  let ?cur = "plots ! i" and ?others = "otherPlots plots i"
  have a: "rec (nextPlotsA ?cur ?others) m = rec' (nextPlotsA ?cur ?others) m" for m
    using length_nextPlotsA [of ?cur ?others] length_otherPlots [OF assms(1)]
    by (intro assms(2)) simp
  have b: "rec (nextPlotsB ?cur nb ?others) m = rec' (nextPlotsB ?cur nb ?others) m"
    if "neighborOf ?cur ?others = Some nb" for nb m
    using length_nextPlotsB [OF that] length_otherPlots [OF assms(1)]
    by (intro assms(2)) simp
  show ?thesis
    unfolding evalMove_def Let_def a
    by (auto split: option.splits simp: b)
qed

lemma solve_loop_cong:
  "(\<And>i st. i \<in> set js \<Longrightarrow> body i st = body' i st) \<Longrightarrow> solve_loop body js st = solve_loop body' js st"
  by (induction js arbitrary: st) (auto split: option.splits)

lemma solve_body_cong:
  assumes "\<And>ps m. length ps < length plots \<Longrightarrow> rec ps m = rec' ps m"
  shows "solve_body rec params plots memo = solve_body rec' params plots memo"
proof -
  have "solve_step rec params plots i st = solve_step rec' params plots i st"
    if "i \<in> set [0..<length plots]" for i st
    using that evalMove_cong [of i plots rec rec' params, OF _ assms]
    by (simp add: solve_step_def split: prod.splits)
  then have "solve_loop (solve_step rec params plots) [0..<length plots] st
      = solve_loop (solve_step rec' params plots) [0..<length plots] st" for st
    by (rule solve_loop_cong)
  then show ?thesis
    by (simp add: solve_body_def Let_def cong: option.case_cong)
qed

lemma solve_fuel_stable:
  "length plots < n \<Longrightarrow> length plots < n' \<Longrightarrow>
     solve_fuel n params plots memo = solve_fuel n' params plots memo"
proof (induction "length plots" arbitrary: plots n n' memo rule: less_induct)
  case less
  from less.prems obtain j j' where n: "n = Suc j" "n' = Suc j'"
    by (cases n; cases n') auto
  have "solve_body (solve_fuel j params) params plots memo
      = solve_body (solve_fuel j' params) params plots memo"
  proof (rule solve_body_cong)
    fix ps :: "LogicPlot list" and m :: memo
    assume "length ps < length plots"
    with less.prems n show "solve_fuel j params ps m = solve_fuel j' params ps m"
      by (intro less.hyps) auto
  qed
  then show ?case by (simp add: n)
qed

lemma solve_fuel_enough:
  "length plots < n \<Longrightarrow> solve_fuel n params plots memo = solve params plots memo"
  unfolding solve_def by (rule solve_fuel_stable) auto

lemma solve_unfold: "solve params plots memo = solve_body (solve params) params plots memo"
proof -
  have "solve params plots memo = solve_body (solve_fuel (length plots) params) params plots memo"
    by (simp add: solve_def)
  also have "\<dots> = solve_body (solve params) params plots memo"
    by (rule solve_body_cong) (simp add: solve_fuel_enough)
  finally show ?thesis .
qed

lemma evalMove_total:
  assumes "i < length plots"
    and "\<And>ps m. length ps < length plots \<Longrightarrow> rec ps m \<noteq> None"
  shows "evalMove rec params plots i memo \<noteq> None"
proof -
  let ?cur = "plots ! i" and ?others = "otherPlots plots i"
  have a: "rec (nextPlotsA ?cur ?others) m \<noteq> None" for m
    using length_nextPlotsA [of ?cur ?others] length_otherPlots [OF assms(1)]
    by (intro assms(2)) simp
  have b: "rec (nextPlotsB ?cur nb ?others) m \<noteq> None"
    if "neighborOf ?cur ?others = Some nb" for nb m
    using length_nextPlotsB [OF that] length_otherPlots [OF assms(1)]
    by (intro assms(2)) simp
  obtain resA memo1 where ra: "rec (nextPlotsA ?cur ?others) memo = Some (resA, memo1)"
    using a [of memo] by auto
  show ?thesis
  proof (cases "neighborOf ?cur ?others")
    case None
    then show ?thesis by (simp add: evalMove_def ra)
  next
    case (Some nb)
    obtain resB memo2 where "rec (nextPlotsB ?cur nb ?others) memo1 = Some (resB, memo2)"
      using b [OF Some, of memo1] by auto
    then show ?thesis by (simp add: evalMove_def ra Some)
  qed
qed

lemma solve_loop_total:
  "(\<And>i st. i \<in> set js \<Longrightarrow> body i st \<noteq> None) \<Longrightarrow> solve_loop body js st \<noteq> None"
proof (induction js arbitrary: st)
  case Nil
  then show ?case by simp
next
  case (Cons j js)
  from Cons.prems [of j st] obtain st' where "body j st = Some st'" by auto
  with Cons show ?case by simp
qed

lemma solve_body_total:
  assumes "\<And>ps m. length ps < length plots \<Longrightarrow> rec ps m \<noteq> None"
  shows "solve_body rec params plots memo \<noteq> None"
proof -
  have em: "evalMove rec params plots i m \<noteq> None" if "i < length plots" for i m
    using that assms by (rule evalMove_total)
  have "solve_step rec params plots i st \<noteq> None" if "i \<in> set [0..<length plots]" for i st
    using that em [of i "snd st"]
    by (cases st) (auto simp: solve_step_def split: option.splits)
  then have "solve_loop (solve_step rec params plots) [0..<length plots] (sentinel, memo) \<noteq> None"
    by (rule solve_loop_total)
  then show ?thesis
    by (auto simp: solve_body_def Let_def split: option.splits)
qed

lemma solve_fuel_total: "length plots < n \<Longrightarrow> solve_fuel n params plots memo \<noteq> None"
proof (induction n arbitrary: plots memo)
  case 0
  then show ?case by simp
next
  case (Suc n)
  have "solve_body (solve_fuel n params) params plots memo \<noteq> None"
  proof (rule solve_body_total)
    fix ps :: "LogicPlot list" and m :: memo
    assume "length ps < length plots"
    with Suc.prems show "solve_fuel n params ps m \<noteq> None"
      by (intro Suc.IH) simp
  qed
  then show ?case by simp
qed

text \<open>
  Claim C10.  \<open>solve\<close> is total: on every plot list and from every memo it returns a result.
  Every recursive call is on a strictly shorter list (\<open>length_otherPlots\<close>,
  \<open>length_nextPlotsA\<close>, \<open>length_nextPlotsB\<close>), so a call stack of one more frame than there
  are plots is never exhausted, and any deeper bound gives the same result.
\<close>

theorem solve_total:
  "\<exists>r memo'. solve params plots memo = Some (r, memo') \<and>
     solve_fuel (Suc (length plots) + d) params plots memo = Some (r, memo')"
proof -
  obtain r memo' where r: "solve params plots memo = Some (r, memo')"
    using solve_fuel_total [of plots "Suc (length plots)" params memo]
    by (auto simp: solve_def)
  moreover have "solve_fuel (Suc (length plots) + d) params plots memo = solve params plots memo"
    by (rule solve_fuel_enough) simp
  ultimately show ?thesis by simp
qed


section \<open>Properties of the state key\<close>

lemma localeCompare_le: "localeCompare a b \<le> 0 \<longleftrightarrow> a \<le> b"
  by (auto simp: localeCompare_def)

lemma localeCompare_eq: "localeCompare a b = 0 \<longleftrightarrow> a = b"
  by (auto simp: localeCompare_def)

lemma comparePlots_le: "comparePlots a b \<le> 0 \<longleftrightarrow> sortKey a \<le> sortKey b"
  by (auto simp: comparePlots_def sortKey_def localeCompare_le)

lemma comparePlots_eq: "comparePlots a b = 0 \<longleftrightarrow> sortKey a = sortKey b"
  by (auto simp: comparePlots_def sortKey_def localeCompare_eq)

lemma insertBy_insort: "insertBy comparePlots x ys = insort_key sortKey x ys"
  by (induction ys) (simp_all add: comparePlots_le)

lemma sortBy_sort_key: "sortBy comparePlots xs = sort_key sortKey xs"
  by (induction xs) (simp_all add: sortBy_def insertBy_insort)

lemma mset_sortBy: "mset (sortBy comparePlots xs) = mset xs"
  by (simp add: sortBy_sort_key)




lemma split_at_delim:
  "c \<notin> set a \<Longrightarrow> c \<notin> set a' \<Longrightarrow> a @ c # b = a' @ c # b' \<Longrightarrow> a = a' \<and> b = b'"
proof (induction a arbitrary: a')
  case Nil
  then show ?case by (cases a') auto
next
  case (Cons x xs)
  then show ?case by (cases a') auto
qed

lemma digitChar_code: "d < 10 \<Longrightarrow> of_char (digitChar d) = 48 + d"
proof -
  assume "d < 10"
  then have "d \<in> {0, 1, 2, 3, 4, 5, 6, 7, 8, 9}" by auto
  then show ?thesis by (auto simp: digitChar_def)
qed

lemma digitChar_inj:
  assumes "d < 10" "d' < 10" "digitChar d = digitChar d'"
  shows "d = d'"
proof -
  have "(of_char (digitChar d) :: nat) = of_char (digitChar d')"
    using assms(3) by (rule arg_cong)
  then have "48 + d = 48 + d'"
    unfolding digitChar_code [OF assms(1)] digitChar_code [OF assms(2)] .
  then show ?thesis by arith
qed

lemma digitChar_digit: "d < 10 \<Longrightarrow> digitChar d \<in> set ''0123456789''"
  unfolding digitChar_def by (rule nth_mem) simp

lemma showNat_digits: "set (showNat n) \<subseteq> set ''0123456789''"
proof (induction n rule: showNat.induct)
  case (1 n)
  show ?case
  proof (cases "n < 10")
    case True
    then show ?thesis
      using digitChar_digit [of n] by (subst showNat.simps) simp
  next
    case False
    then show ?thesis
      using 1 digitChar_digit [of "n mod 10"] by (subst showNat.simps) simp
  qed
qed

lemma showNat_nonempty: "showNat n \<noteq> []"
  by (subst showNat.simps) simp

lemma showNat_inj: "showNat m = showNat n \<Longrightarrow> m = n"
proof (induction m arbitrary: n rule: showNat.induct)
  case (1 m)
  show ?case
  proof (cases "m < 10")
    case m: True
    show ?thesis
    proof (cases "n < 10")
      case True
      with m "1.prems" show ?thesis
        by (simp add: showNat.simps [of m] showNat.simps [of n] digitChar_inj)
    next
      case False
      with m "1.prems" showNat_nonempty [of "n div 10"] show ?thesis
        by (simp add: showNat.simps [of m] showNat.simps [of n] Cons_eq_append_conv)
    qed
  next
    case m: False
    show ?thesis
    proof (cases "n < 10")
      case True
      with m "1.prems" showNat_nonempty [of "m div 10"] show ?thesis
        by (simp add: showNat.simps [of m] showNat.simps [of n] append_eq_Cons_conv)
    next
      case False
      with m "1.prems" have "showNat (m div 10) = showNat (n div 10)"
        and d: "digitChar (m mod 10) = digitChar (n mod 10)"
        by (simp_all add: showNat.simps [of m] showNat.simps [of n])
      with m "1.IH" have "m div 10 = n div 10" by simp
      moreover from d have "m mod 10 = n mod 10"
        by (intro digitChar_inj) simp_all
      ultimately show ?thesis
        by (metis div_mult_mod_eq)
    qed
  qed
qed

lemma sideName_inj: "sideName a = sideName b \<Longrightarrow> a = b"
  by (cases a; cases b) (simp_all add: sideName_def)

lemma colorName_inj: "colorName a = colorName b \<Longrightarrow> a = b"
  by (cases a; cases b) (simp_all add: colorName_def)

lemma sideName_chars: "CHR '':'' \<notin> set (sideName a)" "CHR ''|'' \<notin> set (sideName a)"
  by (cases a; simp add: sideName_def)+

lemma colorName_chars: "CHR '':'' \<notin> set (colorName a)" "CHR ''|'' \<notin> set (colorName a)"
  by (cases a; simp add: colorName_def)+

lemma showNat_chars: "CHR '':'' \<notin> set (showNat n)" "CHR ''|'' \<notin> set (showNat n)"
  using showNat_digits [of n] by auto

lemma plotKey_inj:
  assumes "CHR '':'' \<notin> set (fieldId p)" "CHR '':'' \<notin> set (fieldId q)"
    and "plotKey p = plotKey q"
  shows "p = q"
proof -
  from assms(3) have e1:
    "fieldId p @ CHR '':'' # (sideName (side p) @ CHR '':'' # (colorName (color p) @ CHR '':'' # showNat (k p)))
     = fieldId q @ CHR '':'' # (sideName (side q) @ CHR '':'' # (colorName (color q) @ CHR '':'' # showNat (k q)))"
    by (simp add: plotKey_def)
  from split_at_delim [OF assms(1,2) e1] have f: "fieldId p = fieldId q"
    and e2: "sideName (side p) @ CHR '':'' # (colorName (color p) @ CHR '':'' # showNat (k p))
     = sideName (side q) @ CHR '':'' # (colorName (color q) @ CHR '':'' # showNat (k q))"
    by simp_all
  from split_at_delim [OF sideName_chars(1) sideName_chars(1) e2]
  have s: "sideName (side p) = sideName (side q)"
    and e3: "colorName (color p) @ CHR '':'' # showNat (k p)
      = colorName (color q) @ CHR '':'' # showNat (k q)"
    by simp_all
  from split_at_delim [OF colorName_chars(1) colorName_chars(1) e3]
  have c: "colorName (color p) = colorName (color q)" and n: "showNat (k p) = showNat (k q)"
    by simp_all
  from f sideName_inj [OF s] colorName_inj [OF c] showNat_inj [OF n] show ?thesis
    by simp
qed

lemma plotKey_nonempty: "plotKey p \<noteq> []"
  by (simp add: plotKey_def)

lemma plotKey_no_bar: "CHR ''|'' \<notin> set (fieldId p) \<Longrightarrow> CHR ''|'' \<notin> set (plotKey p)"
  by (simp add: plotKey_def sideName_chars colorName_chars showNat_chars)

lemma joinWith_inj:
  assumes "\<forall>x \<in> set xs. x \<noteq> [] \<and> c \<notin> set x" and "\<forall>y \<in> set ys. y \<noteq> [] \<and> c \<notin> set y"
    and "joinWith [c] xs = joinWith [c] ys"
  shows "xs = ys"
  using assms
proof (induction "[c]" xs arbitrary: ys rule: joinWith.induct)
  case 1
  then show ?case
    by (cases "([c], ys)" rule: joinWith.cases) auto
next
  case (2 x)
  show ?case
  proof (cases "([c], ys)" rule: joinWith.cases)
    case (1 sep)
    with 2 show ?thesis by auto
  next
    case (2 sep y)
    with "2.prems" show ?thesis by auto
  next
    case (3 sep y z zs)
    with "2.prems" show ?thesis by auto
  qed
next
  case (3 x x' xs)
  show ?case
  proof (cases "([c], ys)" rule: joinWith.cases)
    case (1 sep)
    with 3 show ?thesis by auto
  next
    case (2 sep y)
    with "3.prems" show ?thesis by auto
  next
    case (3 sep y z zs)
    with "3.prems" have e: "x @ c # joinWith [c] (x' # xs) = y @ c # joinWith [c] (z # zs)"
      by simp
    from "3.prems" 3 have "c \<notin> set x" "c \<notin> set y" by auto
    from split_at_delim [OF this e] have "x = y" "joinWith [c] (x' # xs) = joinWith [c] (z # zs)"
      by simp_all
    moreover from this(2) "3.prems" 3 have "x' # xs = z # zs"
      by (intro "3.hyps") auto
    ultimately show ?thesis using 3 by simp
  qed
qed

lemma set_sortBy: "set (sortBy comparePlots xs) = set xs"
  by (simp add: sortBy_sort_key)

lemma generateKey_eq_mset:
  assumes "noDelims ps" and "noDelims qs" and eq: "generateKey ps = generateKey qs"
  shows "mset ps = mset qs"
proof -
  let ?sp = "sortBy comparePlots ps" and ?sq = "sortBy comparePlots qs"
  have nd: "\<forall>p \<in> set ps \<union> set qs. CHR '':'' \<notin> set (fieldId p) \<and> CHR ''|'' \<notin> set (fieldId p)"
    using assms(1,2) by (auto simp: noDelims_def list_all_iff)
  have "map plotKey ?sp = map plotKey ?sq"
  proof (rule joinWith_inj)
    show "\<forall>x \<in> set (map plotKey ?sp). x \<noteq> [] \<and> CHR ''|'' \<notin> set x"
      using nd by (auto simp: set_sortBy plotKey_nonempty plotKey_no_bar)
    show "\<forall>y \<in> set (map plotKey ?sq). y \<noteq> [] \<and> CHR ''|'' \<notin> set y"
      using nd by (auto simp: set_sortBy plotKey_nonempty plotKey_no_bar)
    show "joinWith ''|'' (map plotKey ?sp) = joinWith ''|'' (map plotKey ?sq)"
      using eq by (simp add: generateKey_def)
  qed
  moreover have "inj_on plotKey (set ?sp \<union> set ?sq)"
    using nd by (auto simp: inj_on_def set_sortBy intro: plotKey_inj)
  ultimately have "?sp = ?sq"
    by (simp add: inj_on_map_eq_map)
  then have "mset ?sp = mset ?sq" by simp
  then show ?thesis by (simp add: mset_sortBy)
qed

text \<open>
  Claim C3, amended.  A field identifier is an arbitrary string and may contain the
  delimiters \<open>:\<close> and \<open>|\<close>.  For plot lists whose field identifiers contain neither, two
  lists that differ as multisets of plots have different keys.
\<close>

theorem generateKey_injective:
  assumes "noDelims ps" and "noDelims qs" and "mset ps \<noteq> mset qs"
  shows "generateKey ps \<noteq> generateKey qs"
  using assms generateKey_eq_mset [of ps qs] by blast

text \<open>A field identifier that contains the delimiters: one plot has the key of two.\<close>

theorem generateKey_injective_counterexample:
  "mset delimPlots \<noteq> mset plainPlots \<and> generateKey delimPlots = generateKey plainPlots"
  by (simp add: delimPlots_def plainPlots_def generateKey_def sortBy_def comparePlots_def
      localeCompare_def plotKey_def sideName_def colorName_def showNat.simps digitChar_def)

theorem generateKey_injective_witness:
  "noDelims plainPlots \<and> noDelims twoFields \<and> mset plainPlots \<noteq> mset twoFields
   \<and> generateKey plainPlots \<noteq> generateKey twoFields"
proof -
  have a: "noDelims plainPlots" by (simp add: noDelims_def plainPlots_def)
  have b: "noDelims twoFields" by (simp add: noDelims_def twoFields_def)
  have c: "mset plainPlots \<noteq> mset twoFields"
  proof
    assume "mset plainPlots = mset twoFields"
    then have "size (mset plainPlots) = size (mset twoFields)" by simp
    then show False by (simp add: plainPlots_def twoFields_def)
  qed
  from generateKey_injective [OF a b c] a b c show ?thesis by simp
qed

section \<open>The recursion without the memo\<close>

lemma candidateEV_cong:
  assumes "\<And>ps. length ps \<le> length others \<Longrightarrow> f ps = g ps"
  shows "candidateEV f params cur others = candidateEV g params cur others"
proof (cases "neighborOf cur others")
  case None
  then show ?thesis
    using assms [of "nextPlotsA cur others"] length_nextPlotsA [of cur others]
    by (simp add: candidateEV_def)
next
  case (Some nb)
  then show ?thesis
    using assms [of "nextPlotsA cur others"] length_nextPlotsA [of cur others]
      assms [of "nextPlotsB cur nb others"] length_nextPlotsB [OF Some]
    by (simp add: candidateEV_def)
qed

lemma moveValue_cong:
  assumes "i < length plots" and "\<And>ps. length ps < length plots \<Longrightarrow> f ps = g ps"
  shows "moveValue f params plots i = moveValue g params plots i"
  unfolding moveValue_def
proof (rule candidateEV_cong)
  fix ps :: "LogicPlot list"
  assume "length ps \<le> length (otherPlots plots i)"
  with length_otherPlots [OF assms(1)] show "f ps = g ps"
    by (intro assms(2)) simp
qed

lemma recEV_fuel_stable:
  "length plots < n \<Longrightarrow> length plots < n' \<Longrightarrow> recEV_fuel n params plots = recEV_fuel n' params plots"
proof (induction "length plots" arbitrary: plots n n' rule: less_induct)
  case less
  from less.prems obtain j j' where n: "n = Suc j" "n' = Suc j'"
    by (cases n; cases n') auto
  have "moveValue (recEV_fuel j params) params plots i = moveValue (recEV_fuel j' params) params plots i"
    if "i \<in> set [0..<length plots]" for i
  proof (rule moveValue_cong)
    show "i < length plots" using that by simp
    fix ps :: "LogicPlot list"
    assume "length ps < length plots"
    with less.prems n show "recEV_fuel j params ps = recEV_fuel j' params ps"
      by (intro less.hyps) auto
  qed
  then have "map (moveValue (recEV_fuel j params) params plots) [0..<length plots]
      = map (moveValue (recEV_fuel j' params) params plots) [0..<length plots]"
    by (intro map_cong) auto
  then show ?case by (simp only: n recEV_fuel.simps)
qed

lemma recEV_fuel_enough: "length plots < n \<Longrightarrow> recEV_fuel n params plots = recEV params plots"
  unfolding recEV_def by (rule recEV_fuel_stable) auto

lemma recEV_unfold:
  "recEV params plots =
     (if plots = [] then 0
      else foldl max (- 1) (map (moveValue (recEV params) params plots) [0..<length plots]))"
proof -
  have "moveValue (recEV_fuel (length plots) params) params plots i = moveValue (recEV params) params plots i"
    if "i \<in> set [0..<length plots]" for i
    using that by (intro moveValue_cong) (simp_all add: recEV_fuel_enough)
  then have "map (moveValue (recEV_fuel (length plots) params) params plots) [0..<length plots]
      = map (moveValue (recEV params) params plots) [0..<length plots]"
    by (intro map_cong) auto
  then show ?thesis by (simp only: recEV_def recEV_fuel.simps)
qed

lemma foldl_max_Max: "foldl max a ts = Max (insert (a::real) (set ts))"
proof (induction ts arbitrary: a)
  case Nil
  then show ?case by simp
next
  case (Cons t ts)
  have "Max (insert (max a t) (set ts)) = Max (insert a (insert t (set ts)))"
    by (cases "set ts = {}") (simp_all add: max.assoc)
  with Cons show ?case by simp
qed

lemma recEV_Max:
  "plots \<noteq> [] \<Longrightarrow>
     recEV params plots
       = Max (insert (- 1) (set (map (moveValue (recEV params) params plots) [0..<length plots])))"
  by (subst recEV_unfold) (simp only: foldl_max_Max if_False)

subsection \<open>Well-formed plot lists\<close>

lemma wellFormed_mset: "mset ps = mset qs \<Longrightarrow> wellFormed ps = wellFormed qs"
proof -
  assume e: "mset ps = mset qs"
  then have "set ps = set qs" by (rule mset_eq_setD)
  moreover from e have "mset (map sortKey ps) = mset (map sortKey qs)" by simp
  then have "distinct (map sortKey ps) = distinct (map sortKey qs)"
    by (rule mset_eq_imp_distinct_iff)
  ultimately show ?thesis
    by (simp add: wellFormed_def noDelims_def list_all_iff)
qed

lemma mset_otherPlots:
  "i < length plots \<Longrightarrow> mset plots = add_mset (plots ! i) (mset (otherPlots plots i))"
proof -
  assume "i < length plots"
  then have "plots = take i plots @ plots ! i # drop (Suc i) plots"
    by (rule id_take_nth_drop)
  then have "mset plots = mset (take i plots @ plots ! i # drop (Suc i) plots)"
    by simp
  then show ?thesis
    by (simp add: otherPlots_take_drop)
qed

lemma wellFormed_split:
  "i < length plots \<Longrightarrow> wellFormed plots = wellFormed (plots ! i # otherPlots plots i)"
  by (rule wellFormed_mset) (simp add: mset_otherPlots)

lemma sortKey_globalUpdate [simp]: "sortKey (globalUpdate cur p) = sortKey p"
  by (simp add: sortKey_def globalUpdate_def)

lemma fieldId_globalUpdate [simp]: "fieldId (globalUpdate cur p) = fieldId p"
  by (simp add: globalUpdate_def)

lemma wellFormed_nextPlotsA:
  assumes "wellFormed (cur # others)"
  shows "wellFormed (nextPlotsA cur others)"
proof -
  have "map sortKey (nextPlotsA cur others)
      = map sortKey (filter (\<lambda>p. fieldId p \<noteq> fieldId cur) others)"
    by (simp add: nextPlotsA_def nonNeighborsOf_def comp_def)
  moreover have "distinct (map sortKey (filter (\<lambda>p. fieldId p \<noteq> fieldId cur) others))"
    using assms by (simp add: wellFormed_def distinct_map_filter)
  moreover have "noDelims (nextPlotsA cur others)"
    using assms
    by (auto simp: wellFormed_def noDelims_def list_all_iff nextPlotsA_def nonNeighborsOf_def)
  ultimately show ?thesis by (simp add: wellFormed_def)
qed

lemma wellFormed_nextPlotsB:
  assumes "wellFormed (cur # others)" and "neighborOf cur others = Some nb"
  shows "wellFormed (nextPlotsB cur nb others)"
proof -
  let ?nb = "nb\<lparr>k := (if color nb \<noteq> color cur then k nb + 2 else k nb)\<rparr>"
  from assms(2) have nb: "nb \<in> set others" "fieldId nb = fieldId cur"
    by (auto simp: neighborOf_def find_Some_iff)
  from wellFormed_nextPlotsA [OF assms(1)]
  have a: "noDelims (nextPlotsA cur others)" "distinct (map sortKey (nextPlotsA cur others))"
    by (simp_all add: wellFormed_def)
  have b: "nextPlotsB cur nb others = ?nb # nextPlotsA cur others"
    by (simp add: nextPlotsB_def nextPlotsA_def)
  have f: "fieldId p \<noteq> fieldId cur" if "p \<in> set (nextPlotsA cur others)" for p
    using that by (auto simp: nextPlotsA_def nonNeighborsOf_def)
  have "sortKey ?nb \<notin> sortKey ` set (nextPlotsA cur others)"
  proof
    assume "sortKey ?nb \<in> sortKey ` set (nextPlotsA cur others)"
    then obtain p where p: "p \<in> set (nextPlotsA cur others)" "sortKey p = sortKey ?nb"
      by auto
    from p(2) nb(2) have "fieldId p = fieldId cur"
      by (simp add: sortKey_def)
    with f [OF p(1)] show False by simp
  qed
  moreover have "CHR '':'' \<notin> set (fieldId ?nb) \<and> CHR ''|'' \<notin> set (fieldId ?nb)"
    using assms(1) nb by (auto simp: wellFormed_def noDelims_def list_all_iff)
  ultimately show ?thesis
    using a unfolding b wellFormed_def noDelims_def by simp
qed

lemma distinct_const_length:
  "distinct xs \<Longrightarrow> \<forall>x \<in> set xs. x = a \<Longrightarrow> length xs \<le> 1"
  by (cases xs; cases "tl xs") auto

lemma same_field_other_side:
  assumes "sortKey p \<noteq> sortKey cur" and "fieldId p = fieldId cur"
  shows "sortKey p = (fieldId cur, sideName (if side cur = SLeft then SRight else SLeft))"
  using assms by (cases "side p"; cases "side cur") (auto simp: sortKey_def)

lemma neighbors_at_most_one:
  assumes "wellFormed (cur # others)"
  shows "length (filter (\<lambda>p. fieldId p = fieldId cur) others) \<le> 1"
proof -
  let ?ns = "filter (\<lambda>p. fieldId p = fieldId cur) others"
  from assms have d: "distinct (map sortKey others)" and c: "sortKey cur \<notin> sortKey ` set others"
    by (auto simp: wellFormed_def)
  from d have "distinct (map sortKey ?ns)"
    by (rule distinct_map_filter)
  moreover have "\<forall>x \<in> set (map sortKey ?ns).
      x = (fieldId cur, sideName (if side cur = SLeft then SRight else SLeft))"
  proof
    fix x
    assume "x \<in> set (map sortKey ?ns)"
    then obtain p where p: "p \<in> set others" "fieldId p = fieldId cur" "x = sortKey p"
      by auto
    from p(1) c have "sortKey p \<noteq> sortKey cur" by (metis imageI)
    from same_field_other_side [OF this p(2)] p(3)
    show "x = (fieldId cur, sideName (if side cur = SLeft then SRight else SLeft))"
      by simp
  qed
  ultimately have "length (map sortKey ?ns) \<le> 1"
    by (rule distinct_const_length)
  then show ?thesis by simp
qed

lemma find_filter_hd:
  "find P xs = (case filter P xs of [] \<Rightarrow> None | x # _ \<Rightarrow> Some x)"
  by (induction xs) auto

lemma mset_eq_short:
  assumes "mset xs = mset ys" and "length xs \<le> 1"
  shows "xs = ys"
proof -
  from assms(1) have "length xs = length ys" by (rule mset_eq_length)
  with assms show ?thesis
    by (cases xs; cases ys) auto
qed

lemma neighborOf_perm:
  assumes "wellFormed (cur # others)" and "mset others = mset others'"
  shows "neighborOf cur others = neighborOf cur others'"
proof -
  let ?P = "\<lambda>p. fieldId p = fieldId cur"
  from assms(2) have "mset (filter ?P others) = mset (filter ?P others')"
    by simp
  then have "filter ?P others = filter ?P others'"
    using neighbors_at_most_one [OF assms(1)] by (rule mset_eq_short)
  then show ?thesis
    by (simp add: neighborOf_def find_filter_hd)
qed

lemma mset_nextPlotsA:
  "mset others = mset others' \<Longrightarrow> mset (nextPlotsA cur others) = mset (nextPlotsA cur others')"
  by (simp add: nextPlotsA_def nonNeighborsOf_def)

lemma mset_nextPlotsB:
  "mset others = mset others' \<Longrightarrow> mset (nextPlotsB cur nb others) = mset (nextPlotsB cur nb others')"
  by (simp add: nextPlotsB_def nonNeighborsOf_def)

lemma candidateEV_perm:
  assumes IH: "\<And>xs ys. length xs \<le> length others \<Longrightarrow> wellFormed xs \<Longrightarrow> mset xs = mset ys
      \<Longrightarrow> ev xs = ev ys"
    and wf: "wellFormed (cur # others)" and e: "mset others = mset others'"
  shows "candidateEV ev params cur others = candidateEV ev params cur others'"
proof -
  have a: "ev (nextPlotsA cur others) = ev (nextPlotsA cur others')"
    by (rule IH [OF length_nextPlotsA wellFormed_nextPlotsA [OF wf] mset_nextPlotsA [OF e]])
  show ?thesis
  proof (cases "neighborOf cur others")
    case None
    with neighborOf_perm [OF wf e] a show ?thesis
      by (simp add: candidateEV_def)
  next
    case (Some nb)
    have "ev (nextPlotsB cur nb others) = ev (nextPlotsB cur nb others')"
      by (rule IH [OF length_nextPlotsB [OF Some] wellFormed_nextPlotsB [OF wf Some]
            mset_nextPlotsB [OF e]])
    with Some neighborOf_perm [OF wf e] a show ?thesis
      by (simp add: candidateEV_def)
  qed
qed

lemma moveValue_perm:
  assumes IH: "\<And>xs ys. length xs < length ps \<Longrightarrow> wellFormed xs \<Longrightarrow> mset xs = mset ys
      \<Longrightarrow> ev xs = ev ys"
    and wf: "wellFormed ps" and e: "mset ps = mset qs" and i: "i < length ps"
  shows "\<exists>j<length qs. moveValue ev params qs j = moveValue ev params ps i"
proof -
  from i have "ps ! i \<in> set ps" by simp
  with e have "ps ! i \<in> set qs" by (simp flip: set_mset_mset)
  then obtain j where j: "j < length qs" "qs ! j = ps ! i"
    by (auto simp: in_set_conv_nth)
  from mset_otherPlots [OF i] mset_otherPlots [OF j(1)] e j(2)
  have o: "mset (otherPlots ps i) = mset (otherPlots qs j)"
    by simp
  have "candidateEV ev params (ps ! i) (otherPlots ps i) = candidateEV ev params (ps ! i) (otherPlots qs j)"
  proof (rule candidateEV_perm [OF _ _ o])
    show "wellFormed (ps ! i # otherPlots ps i)"
      using wf wellFormed_split [OF i] by simp
    fix xs ys :: "LogicPlot list"
    assume "length xs \<le> length (otherPlots ps i)" "wellFormed xs" "mset xs = mset ys"
    with length_otherPlots [OF i] show "ev xs = ev ys"
      by (intro IH) simp_all
  qed
  with j show ?thesis
    by (auto simp: moveValue_def)
qed

lemma recEV_perm:
  "wellFormed ps \<Longrightarrow> mset ps = mset qs \<Longrightarrow> recEV params ps = recEV params qs"
proof (induction "length ps" arbitrary: ps qs rule: less_induct)
  case less
  show ?case
  proof (cases "ps = []")
    case True
    with less.prems(2) have "qs = []" by simp
    with True show ?thesis by simp
  next
    case False
    from less.prems(2) have len: "length qs = length ps"
      by (rule mset_eq_length [symmetric])
    with False have q: "qs \<noteq> []" by auto
    from less.prems have wfq: "wellFormed qs"
      using wellFormed_mset [OF less.prems(2)] by simp
    have IH: "recEV params xs = recEV params ys"
      if "length xs < length ps" "wellFormed xs" "mset xs = mset ys" for xs ys
      using that by (rule less.hyps)
    have "moveValue (recEV params) params ps ` {..<length ps}
        = moveValue (recEV params) params qs ` {..<length qs}"
    proof (intro equalityI subsetI)
      fix v
      assume "v \<in> moveValue (recEV params) params ps ` {..<length ps}"
      then obtain i where i: "i < length ps" "v = moveValue (recEV params) params ps i"
        by auto
      from moveValue_perm [of ps "recEV params" qs i params, OF IH less.prems i(1)]
      obtain j where "j < length qs"
        "moveValue (recEV params) params qs j = moveValue (recEV params) params ps i"
        by blast
      then have "j \<in> {..<length qs}" "v = moveValue (recEV params) params qs j"
        using i(2) by simp_all
      then show "v \<in> moveValue (recEV params) params qs ` {..<length qs}"
        by (rule image_eqI [rotated])
    next
      fix v
      assume "v \<in> moveValue (recEV params) params qs ` {..<length qs}"
      then obtain j where j: "j < length qs" "v = moveValue (recEV params) params qs j"
        by auto
      have IH': "recEV params xs = recEV params ys"
        if "length xs < length qs" "wellFormed xs" "mset xs = mset ys" for xs ys
        using that len by (intro IH) simp_all
      from moveValue_perm [of qs "recEV params" ps j params, OF IH' wfq less.prems(2) [symmetric] j(1)]
      obtain i where "i < length ps"
        "moveValue (recEV params) params ps i = moveValue (recEV params) params qs j"
        by blast
      then have "i \<in> {..<length ps}" "v = moveValue (recEV params) params ps i"
        using j(2) by simp_all
      then show "v \<in> moveValue (recEV params) params ps ` {..<length ps}"
        by (rule image_eqI [rotated])
    qed
    then have s: "set (map (moveValue (recEV params) params ps) [0..<length ps])
        = set (map (moveValue (recEV params) params qs) [0..<length qs])"
      by (simp add: atLeast0LessThan)
    show ?thesis
      by (simp only: recEV_Max [OF False] recEV_Max [OF q] s)
  qed
qed

section \<open>The memo does not change the expected value\<close>

lemma candidateEV_cong_calls:
  assumes "f (nextPlotsA cur others) = g (nextPlotsA cur others)"
    and "\<And>nb. neighborOf cur others = Some nb \<Longrightarrow>
      f (nextPlotsB cur nb others) = g (nextPlotsB cur nb others)"
  shows "candidateEV f params cur others = candidateEV g params cur others"
  using assms by (cases "neighborOf cur others") (simp_all add: candidateEV_def)

lemma evalMove_sound:
  assumes IH: "\<And>xs m r m'. length xs < length plots \<Longrightarrow> wellFormed xs \<Longrightarrow> memoSound params m
      \<Longrightarrow> rec xs m = Some (r, m') \<Longrightarrow> maxEV r = recEV params xs \<and> memoSound params m'"
    and i: "i < length plots" and wf: "wellFormed plots" and ms: "memoSound params m"
    and ev: "evalMove rec params plots i m = Some ((t, resA), m')"
  shows "t = moveValue (recEV params) params plots i \<and> memoSound params m'"
proof -
  let ?cur = "plots ! i" and ?others = "otherPlots plots i"
  have wfc: "wellFormed (?cur # ?others)"
    using wf wellFormed_split [OF i] by simp
  from ev obtain rA m1 where a: "rec (nextPlotsA ?cur ?others) m = Some (rA, m1)"
    by (auto simp: evalMove_def Let_def split: option.splits)
  have la: "length (nextPlotsA ?cur ?others) < length plots"
    using length_nextPlotsA [of ?cur ?others] length_otherPlots [OF i] by simp
  from IH [OF la wellFormed_nextPlotsA [OF wfc] ms a]
  have ra: "maxEV rA = recEV params (nextPlotsA ?cur ?others)" and ms1: "memoSound params m1"
    by simp_all
  show ?thesis
  proof (cases "neighborOf ?cur ?others")
    case None
    with ev a have "t = immediateGain params ?cur + maxEV rA" "m' = m1"
      by (auto simp: evalMove_def Let_def)
    with None ra ms1 show ?thesis
      by (simp add: moveValue_def candidateEV_def)
  next
    case (Some nb)
    from ev a Some obtain rB m2 where b: "rec (nextPlotsB ?cur nb ?others) m1 = Some (rB, m2)"
      and t: "t = immediateGain params ?cur + (1 - probSurvival params) * maxEV rA
                + probSurvival params * maxEV rB"
      and m: "m' = m2"
      by (auto simp: evalMove_def Let_def split: option.splits)
    have lb: "length (nextPlotsB ?cur nb ?others) < length plots"
      using length_nextPlotsB [OF Some] length_otherPlots [OF i] by simp
    from IH [OF lb wellFormed_nextPlotsB [OF wfc Some] ms1 b]
    have "maxEV rB = recEV params (nextPlotsB ?cur nb ?others)" and "memoSound params m2"
      by simp_all
    with Some ra t m show ?thesis
      by (simp add: moveValue_def candidateEV_def)
  qed
qed

lemma solve_step_result:
  assumes "solve_step rec params plots j (best, m) = Some (best', m')"
  obtains t resA where "evalMove rec params plots j m = Some ((t, resA), m')"
    and "best' = (if t > maxEV best
                  then \<lparr>maxEV = t, path = stepDesc (plots ! j) # path resA,
                        bestMoveId = Some (plotId (plots ! j))\<rparr>
                  else best)"
  using assms by (auto simp: solve_step_def split: option.splits)

lemma solve_loop_sound:
  assumes step: "\<And>j m t resA m'. j \<in> set js \<Longrightarrow> memoSound params m
      \<Longrightarrow> evalMove rec params plots j m = Some ((t, resA), m')
      \<Longrightarrow> t = moveValue (recEV params) params plots j \<and> memoSound params m'"
    and "memoSound params m"
    and "solve_loop (solve_step rec params plots) js (best, m) = Some (best', m')"
  shows "maxEV best' = foldl max (maxEV best) (map (moveValue (recEV params) params plots) js)
         \<and> memoSound params m'"
  using assms
proof (induction js arbitrary: best m)
  case Nil
  then show ?case by simp
next
  case (Cons j js)
  from Cons.prems(3) obtain best1 m1
    where s1: "solve_step rec params plots j (best, m) = Some (best1, m1)"
      and l1: "solve_loop (solve_step rec params plots) js (best1, m1) = Some (best', m')"
    by (auto split: option.splits)
  from s1 obtain t resA where e: "evalMove rec params plots j m = Some ((t, resA), m1)"
    and b1: "best1 = (if t > maxEV best
                  then \<lparr>maxEV = t, path = stepDesc (plots ! j) # path resA,
                        bestMoveId = Some (plotId (plots ! j))\<rparr>
                  else best)"
    by (rule solve_step_result)
  from Cons.prems(1) [OF _ Cons.prems(2) e]
  have t: "t = moveValue (recEV params) params plots j" and ms1: "memoSound params m1"
    by simp_all
  from b1 have mx: "maxEV best1 = max (maxEV best) t"
    by (simp add: max_def)
  have "maxEV best' = foldl max (maxEV best1) (map (moveValue (recEV params) params plots) js)
      \<and> memoSound params m'"
  proof (rule Cons.IH [OF _ ms1 l1])
    fix i m t resA m'
    assume "i \<in> set js" "memoSound params m"
      "evalMove rec params plots i m = Some ((t, resA), m')"
    then show "t = moveValue (recEV params) params plots i \<and> memoSound params m'"
      by (intro Cons.prems(1)) simp_all
  qed
  with mx t show ?case by simp
qed

lemma solve_body_sound:
  assumes IH: "\<And>xs m r m'. length xs < length plots \<Longrightarrow> wellFormed xs \<Longrightarrow> memoSound params m
      \<Longrightarrow> rec xs m = Some (r, m') \<Longrightarrow> maxEV r = recEV params xs \<and> memoSound params m'"
    and wf: "wellFormed plots" and ms: "memoSound params m"
    and res: "solve_body rec params plots m = Some (r, m')"
  shows "maxEV r = recEV params plots \<and> memoSound params m'"
proof (cases "plots = []")
  case True
  with res ms show ?thesis
    by (auto simp: solve_body_def emptyResult_def recEV_unfold)
next
  case ne: False
  show ?thesis
  proof (cases "m (generateKey plots)")
    case (Some cached)
    with res ne have "r = cached" "m' = m"
      by (simp_all add: solve_body_def)
    with Some ms wf show ?thesis
      by (simp add: memoSound_def)
  next
    case None
    with res ne obtain m1
      where l: "solve_loop (solve_step rec params plots) [0..<length plots] (sentinel, m) = Some (r, m1)"
        and m': "m' = m1(generateKey plots \<mapsto> r)"
      by (auto simp: solve_body_def Let_def split: option.splits)
    have "maxEV r = foldl max (maxEV sentinel) (map (moveValue (recEV params) params plots) [0..<length plots])
        \<and> memoSound params m1"
    proof (rule solve_loop_sound [OF _ ms l])
      fix j m t resA m'
      assume "j \<in> set [0..<length plots]" "memoSound params m"
        "evalMove rec params plots j m = Some ((t, resA), m')"
      then show "t = moveValue (recEV params) params plots j \<and> memoSound params m'"
        using evalMove_sound [of plots params rec j m t resA m', OF IH _ wf] by simp
    qed
    then have v: "maxEV r = recEV params plots" and ms1: "memoSound params m1"
      using ne by (simp_all add: sentinel_def recEV_unfold [of params plots])
    have "memoSound params m'"
      unfolding memoSound_def
    proof (intro allI impI)
      fix qs r'
      assume q: "wellFormed qs" "m' (generateKey qs) = Some r'"
      show "maxEV r' = recEV params qs"
      proof (cases "generateKey qs = generateKey plots")
        case True
        with q(2) m' have "r' = r" by simp
        moreover from True q(1) wf have "mset plots = mset qs"
          by (intro generateKey_eq_mset) (simp_all add: wellFormed_def)
        with wf have "recEV params plots = recEV params qs"
          by (rule recEV_perm)
        ultimately show ?thesis using v by simp
      next
        case False
        with q(2) m' have "m1 (generateKey qs) = Some r'" by simp
        with ms1 q(1) show ?thesis by (simp add: memoSound_def)
      qed
    qed
    with v show ?thesis by simp
  qed
qed

lemma solve_sound:
  "solve params plots m = Some (r, m') \<Longrightarrow> wellFormed plots \<Longrightarrow> memoSound params m
     \<Longrightarrow> maxEV r = recEV params plots \<and> memoSound params m'"
proof (induction "length plots" arbitrary: plots m r m' rule: less_induct)
  case less
  from less.prems(1) have "solve_body (solve params) params plots m = Some (r, m')"
    by (subst (asm) solve_unfold)
  with less.hyps less.prems(2,3) show ?case
    by (intro solve_body_sound [of plots params "solve params" m r m']) blast+
qed

lemma memoSound_clearMemo: "memoSound params clearMemo"
  by (simp add: memoSound_def clearMemo_def)

lemma solvedEV_recEV: "wellFormed plots \<Longrightarrow> solvedEV params plots = recEV params plots"
proof -
  assume wf: "wellFormed plots"
  obtain r m' where r: "solve params plots clearMemo = Some (r, m')"
    using solve_fuel_total [of plots "Suc (length plots)" params clearMemo]
    by (auto simp: solve_def)
  from solve_sound [OF r wf memoSound_clearMemo] r show ?thesis
    by (simp add: solvedEV_def)
qed

lemma moveValue_solvedEV:
  assumes "wellFormed plots" and i: "i < length plots"
  shows "moveValue (solvedEV params) params plots i = moveValue (recEV params) params plots i"
proof -
  let ?cur = "plots ! i" and ?others = "otherPlots plots i"
  have wfc: "wellFormed (?cur # ?others)"
    using assms(1) wellFormed_split [OF i] by simp
  show ?thesis
    unfolding moveValue_def
    by (rule candidateEV_cong_calls)
      (simp_all add: solvedEV_recEV wellFormed_nextPlotsA [OF wfc] wellFormed_nextPlotsB [OF wfc])
qed

text \<open>
  Claim C1, amended.  For a non-empty well-formed plot list (field identifiers without the
  delimiters of the key, no two plots with the same field and side) and a cleared memo,
  \<open>solve\<close> returns as \<open>maxEV\<close> the greatest of \<open>- 1\<close>, the start of the running maximum, and the
  values of the moves: the immediate gain of plot \<open>i\<close> plus \<open>(1 - B)\<close> times the \<open>maxEV\<close> of
  branch A plus \<open>B\<close> times the \<open>maxEV\<close> of branch B when the plot has a neighbour, and the
  immediate gain plus the \<open>maxEV\<close> of branch A when it has none, each branch solved from a
  cleared memo.
\<close>

theorem solve_maxEV_recurrence:
  assumes "wellFormed plots" and "plots \<noteq> []"
  shows "\<exists>r memo'. solve params plots clearMemo = Some (r, memo') \<and>
           maxEV r = Max (insert (- 1)
             (set (map (moveValue (solvedEV params) params plots) [0..<length plots])))"
proof -
  obtain r m' where r: "solve params plots clearMemo = Some (r, m')"
    using solve_fuel_total [of plots "Suc (length plots)" params clearMemo]
    by (auto simp: solve_def)
  from solve_sound [OF r assms(1) memoSound_clearMemo]
  have "maxEV r = recEV params plots" by simp
  also have "\<dots> = Max (insert (- 1)
      (set (map (moveValue (recEV params) params plots) [0..<length plots])))"
    using assms(2) by (rule recEV_Max)
  also have "map (moveValue (recEV params) params plots) [0..<length plots]
      = map (moveValue (solvedEV params) params plots) [0..<length plots]"
    by (rule map_cong) (simp_all add: moveValue_solvedEV [OF assms(1)])
  finally show ?thesis using r by blast
qed

theorem solve_maxEV_recurrence_counterexample:
  "map_option (maxEV \<circ> fst) (solve lossParams onePlot clearMemo) = Some (- 1)
   \<and> Max (set (map (moveValue (solvedEV lossParams) lossParams onePlot) [0..<length onePlot])) = - 5"
  by code_simp

theorem solve_maxEV_recurrence_witness:
  "wellFormed twoFields \<and> twoFields \<noteq> []
   \<and> (\<exists>r memo'. solve defaultParams twoFields clearMemo = Some (r, memo') \<and>
           maxEV r = Max (insert (- 1)
             (set (map (moveValue (solvedEV defaultParams) defaultParams twoFields)
                [0..<length twoFields]))))"
proof -
  have a: "wellFormed twoFields" by code_simp
  have b: "twoFields \<noteq> []" by (simp add: twoFields_def)
  from solve_maxEV_recurrence [OF a b, of defaultParams] a b show ?thesis by blast
qed

section \<open>The running maximum of the loop\<close>

lemma moveTotals_length: "moveTotals rec params plots js m = Some ts \<Longrightarrow> length ts = length js"
  by (induction js arbitrary: m ts) (auto split: option.splits)

lemma moveTotals_Cons:
  assumes "moveTotals rec params plots (j # js) m = Some ts"
  obtains t resA m1 ts' where "evalMove rec params plots j m = Some ((t, resA), m1)"
    and "moveTotals rec params plots js m1 = Some ts'" and "ts = t # ts'"
  using assms by (auto split: option.splits)

lemma solve_step_eval:
  "evalMove rec params plots j m = Some ((t, resA), m1) \<Longrightarrow>
     solve_step rec params plots j (best, m)
       = Some (if t > maxEV best
               then \<lparr>maxEV = t, path = stepDesc (plots ! j) # path resA,
                     bestMoveId = Some (plotId (plots ! j))\<rparr>
               else best, m1)"
  by (simp add: solve_step_def)

lemma solve_loop_keep:
  "moveTotals rec params plots js m = Some ts \<Longrightarrow> \<forall>t \<in> set ts. t \<le> maxEV best \<Longrightarrow>
     \<exists>m'. solve_loop (solve_step rec params plots) js (best, m) = Some (best, m')"
proof (induction js arbitrary: m ts)
  case Nil
  then show ?case by simp
next
  case (Cons j js)
  from Cons.prems(1) obtain t resA m1 ts'
    where e: "evalMove rec params plots j m = Some ((t, resA), m1)"
      and r: "moveTotals rec params plots js m1 = Some ts'" and ts: "ts = t # ts'"
    by (rule moveTotals_Cons)
  from Cons.prems(2) ts have "\<not> t > maxEV best" "\<forall>t \<in> set ts'. t \<le> maxEV best"
    by auto
  with Cons.IH [OF r] solve_step_eval [OF e, of best] show ?case
    by simp
qed

lemma solve_loop_first_max:
  "moveTotals rec params plots js m = Some ts \<Longrightarrow> n < length ts \<Longrightarrow> maxEV best < ts ! n
     \<Longrightarrow> \<forall>j<n. ts ! j < ts ! n \<Longrightarrow> \<forall>j<length ts. ts ! j \<le> ts ! n
     \<Longrightarrow> \<exists>best' m'. solve_loop (solve_step rec params plots) js (best, m) = Some (best', m')
           \<and> maxEV best' = ts ! n \<and> bestMoveId best' = Some (plotId (plots ! (js ! n)))"
proof (induction js arbitrary: m ts n best)
  case Nil
  then show ?case by simp
next
  case (Cons j js)
  from Cons.prems(1) obtain t resA m1 ts'
    where e: "evalMove rec params plots j m = Some ((t, resA), m1)"
      and r: "moveTotals rec params plots js m1 = Some ts'" and ts: "ts = t # ts'"
    by (rule moveTotals_Cons)
  let ?new = "\<lparr>maxEV = t, path = stepDesc (plots ! j) # path resA,
               bestMoveId = Some (plotId (plots ! j))\<rparr>"
  show ?case
  proof (cases n)
    case 0
    with Cons.prems(3) ts have gt: "t > maxEV best" by simp
    from Cons.prems(5) ts 0 have "\<forall>j<length ts'. ts' ! j \<le> t"
      by auto
    then have "\<forall>x \<in> set ts'. x \<le> maxEV ?new"
      by (auto simp: in_set_conv_nth)
    from solve_loop_keep [OF r this] obtain m'
      where "solve_loop (solve_step rec params plots) js (?new, m1) = Some (?new, m')"
      by blast
    with solve_step_eval [OF e, of best] gt 0 ts show ?thesis
      by simp
  next
    case (Suc n')
    let ?best1 = "if t > maxEV best then ?new else best"
    from Cons.prems(4) Suc ts have "t < ts' ! n'" by auto
    with Cons.prems(3) Suc ts have b: "maxEV ?best1 < ts' ! n'" by simp
    from Cons.prems(2) Suc ts have n': "n' < length ts'" by simp
    from Cons.prems(4) Suc ts have lt: "\<forall>j<n'. ts' ! j < ts' ! n'" by auto
    from Cons.prems(5) Suc ts have le: "\<forall>j<length ts'. ts' ! j \<le> ts' ! n'" by auto
    from Cons.IH [OF r n' b lt le] solve_step_eval [OF e, of best] Suc ts show ?thesis
      by simp
  qed
qed

lemma solve_computed:
  assumes "plots \<noteq> []" and "memo (generateKey plots) = None"
    and "solve_loop (solve_step (solve params) params plots) [0..<length plots] (sentinel, memo)
           = Some (best, memo1)"
  shows "solve params plots memo = Some (best, memo1(generateKey plots \<mapsto> best))"
  using assms by (subst solve_unfold) (simp add: solve_body_def)

text \<open>
  Claim C4.  When the key of a non-empty plot list is not in the memo and every total expected
  value the loop computes is at most \<open>- 1\<close>, no move improves on the initial best result and
  \<open>solve\<close> returns it: \<open>maxEV = - 1\<close>, an empty path and no best move.
\<close>

theorem solve_returns_sentinel:
  assumes "plots \<noteq> []" and "memo (generateKey plots) = None"
    and "computedTotals params plots memo = Some ts" and "\<forall>t \<in> set ts. t \<le> - 1"
  shows "\<exists>memo'. solve params plots memo
           = Some (\<lparr>maxEV = - 1, path = [], bestMoveId = None\<rparr>, memo')"
proof -
  from assms(4) have "\<forall>t \<in> set ts. t \<le> maxEV sentinel"
    by (simp add: sentinel_def)
  from solve_loop_keep [OF assms(3) [unfolded computedTotals_def] this]
  obtain m1 where "solve_loop (solve_step (solve params) params plots) [0..<length plots]
      (sentinel, memo) = Some (sentinel, m1)"
    by blast
  from solve_computed [OF assms(1,2) this] show ?thesis
    by (simp add: sentinel_def)
qed

theorem solve_returns_sentinel_witness:
  "tiePlots \<noteq> [] \<and> clearMemo (generateKey tiePlots) = None
   \<and> computedTotals lossParams tiePlots clearMemo = Some [- (9 / 4), - (9 / 4)]
   \<and> - (9 / 4) \<le> (- 1 :: real)
   \<and> (\<exists>memo'. solve lossParams tiePlots clearMemo
           = Some (\<lparr>maxEV = - 1, path = [], bestMoveId = None\<rparr>, memo'))"
proof -
  have a: "tiePlots \<noteq> []" by (simp add: tiePlots_def)
  have b: "clearMemo (generateKey tiePlots) = None" by (simp add: clearMemo_def)
  have c: "computedTotals lossParams tiePlots clearMemo = Some [- (9 / 4), - (9 / 4)]" by code_simp
  have d: "\<forall>t \<in> set [- (9 / 4), - (9 / 4) :: real]. t \<le> - 1" by simp
  from solve_returns_sentinel [OF a b c d] a b c show ?thesis by simp
qed

text \<open>
  Claim C7, amended.  The comparison is strict, so the first plot, in input order, whose total
  expected value is the greatest one wins, provided that value exceeds \<open>- 1\<close>, the initial
  best value: \<open>solve\<close> returns that value and the identity of that plot, and a later plot with
  an equal total does not replace it.  (When no total exceeds \<open>- 1\<close> there is no best move.)
\<close>

theorem solve_first_max_wins:
  assumes "plots \<noteq> []" and "memo (generateKey plots) = None"
    and "computedTotals params plots memo = Some ts"
    and "i < length plots" and "- 1 < ts ! i"
    and "\<forall>j<i. ts ! j < ts ! i" and "\<forall>j<length ts. ts ! j \<le> ts ! i"
  shows "\<exists>r memo'. solve params plots memo = Some (r, memo')
           \<and> maxEV r = ts ! i \<and> bestMoveId r = Some (plotId (plots ! i))"
proof -
  note t = assms(3) [unfolded computedTotals_def]
  from moveTotals_length [OF t] assms(4) have i: "i < length ts" by simp
  from assms(5) have s: "maxEV sentinel < ts ! i" by (simp add: sentinel_def)
  from solve_loop_first_max [OF t i s assms(6,7)] assms(4)
  obtain best m1 where "solve_loop (solve_step (solve params) params plots) [0..<length plots]
      (sentinel, memo) = Some (best, m1)"
    and b: "maxEV best = ts ! i" "bestMoveId best = Some (plotId (plots ! i))"
    by auto
  from solve_computed [OF assms(1,2) this(1)] b show ?thesis
    by simp
qed

theorem solve_first_max_wins_witness:
  "tiePlots \<noteq> [] \<and> clearMemo (generateKey tiePlots) = None
   \<and> computedTotals defaultParams tiePlots clearMemo = Some [5, 5]
   \<and> (0::nat) < length tiePlots \<and> - 1 < [5, 5 :: real] ! 0 \<and> [5, 5 :: real] ! 1 \<le> [5, 5] ! 0
   \<and> (\<exists>r memo'. solve defaultParams tiePlots clearMemo = Some (r, memo')
           \<and> maxEV r = 5 \<and> bestMoveId r = Some ''field1-L'')"
proof -
  have a: "tiePlots \<noteq> []" by (simp add: tiePlots_def)
  have b: "clearMemo (generateKey tiePlots) = None" by (simp add: clearMemo_def)
  have c: "computedTotals defaultParams tiePlots clearMemo = Some [5, 5]" by code_simp
  have d: "(0::nat) < length tiePlots" by (simp add: tiePlots_def)
  have e: "- 1 < [5, 5 :: real] ! 0" by simp
  have f: "\<forall>j<0. [5, 5 :: real] ! j < [5, 5] ! 0" by simp
  have g: "\<forall>j<length [5, 5 :: real]. [5, 5 :: real] ! j \<le> [5, 5] ! 0"
    by (simp add: nth_Cons split: nat.splits)
  have h: "plotId (tiePlots ! 0) = ''field1-L''" by (simp add: tiePlots_def plotId_def)
  from solve_first_max_wins [OF a b c d e f g] a b c d e h show ?thesis by simp
qed

text \<open>Two plots of the same colour and level in different fields, with a tier-1 value of
  \<open>- 5\<close>: both totals are \<open>- 9 / 4\<close> and \<open>solve\<close> names no best move.\<close>

theorem solve_first_max_wins_counterexample:
  "map_option (bestMoveId \<circ> fst) (solve lossParams tiePlots clearMemo) = Some None
   \<and> computedTotals lossParams tiePlots clearMemo = Some [- (9 / 4), - (9 / 4)]"
  by code_simp

section \<open>Scenarios\<close>

lemma solve_Nil: "solve params [] m = Some (emptyResult, m)"
  by (subst solve_unfold) (simp add: solve_body_def)

lemma seedLoop_no_upgrade:
  assumes "probL1toL2 params = 0"
  shows "seedLoop n params (1, 0, 0, 0) = (1, 0, 0, 0)"
  using assms by (induction n) (simp_all add: seedStep_def)

lemma getSeedEV_no_upgrade: "probL1toL2 params = 0 \<Longrightarrow> getSeedEV n params = valL1 params"
  by (simp add: getSeedEV_def seedLoop_no_upgrade)

lemma getCropMultiplier_equal:
  assumes "buyCountBlue params = buyCountPurple params"
    and "buyCountYellow params = buyCountPurple params" and "0 < buyCountPurple params"
  shows "getCropMultiplier c params = 1"
  using assms by (cases c) (simp_all add: getCropMultiplier_def currentCount_def)

lemma evalMove_withered:
  assumes "i < length plots" and "probSurvival params = 0"
    and nb: "neighborOf (plots ! i) (otherPlots plots i) = Some nb"
    and "nextPlotsA (plots ! i) (otherPlots plots i) = []"
  shows "\<exists>m'. evalMove (solve params) params plots i m
           = Some ((immediateGain params (plots ! i), emptyResult), m')"
proof -
  obtain rB m2
    where "solve params (nextPlotsB (plots ! i) nb (otherPlots plots i)) m = Some (rB, m2)"
    using solve_fuel_total [of "nextPlotsB (plots ! i) nb (otherPlots plots i)"
        "Suc (length (nextPlotsB (plots ! i) nb (otherPlots plots i)))" params m]
    by (auto simp: solve_def)
  with assms show ?thesis
    by (simp add: evalMove_def solve_Nil emptyResult_def)
qed

text \<open>
  Claim C2, amended.  Two plots of the same field, survival probability 0, the three
  transition probabilities 0, equal positive reference quantities and a tier-1 value above
  \<open>- 1\<close>: from a cleared memo \<open>solve\<close> returns the tier-1 value once, not twice, and a path of
  exactly one step, the harvest of the first plot.  With survival probability 0 the neighbour
  of the harvested plot withers, so branch A is the empty state and nothing is harvested after
  the first plot.  (The colours and the levels of the two plots play no role.)
\<close>

theorem solve_same_field_pair:
  assumes "fieldId q = fieldId p"
    and "probSurvival params = 0"
    and "probL1toL2 params = 0" and "probL2toL3 params = 0" and "probL3toL4 params = 0"
    and "buyCountBlue params = buyCountPurple params"
    and "buyCountYellow params = buyCountPurple params" and "0 < buyCountPurple params"
    and "- 1 < valL1 params"
  shows "\<exists>memo'. solve params [p, q] clearMemo
           = Some (\<lparr>maxEV = valL1 params, path = [stepDesc p], bestMoveId = Some (plotId p)\<rparr>,
                   memo')"
proof -
  have g: "immediateGain params x = valL1 params" for x
    using assms by (simp add: immediateGain_def getCropMultiplier_equal getSeedEV_no_upgrade)
  have o: "otherPlots [p, q] 0 = [q]" "otherPlots [p, q] (Suc 0) = [p]"
    by (simp_all add: otherPlots_take_drop)
  obtain m1 where e0: "evalMove (solve params) params [p, q] 0 clearMemo
      = Some ((valL1 params, emptyResult), m1)"
    using evalMove_withered [of 0 "[p, q]" params q clearMemo] assms(1,2)
    by (auto simp: o g neighborOf_def nextPlotsA_def nonNeighborsOf_def)
  obtain m2 where e1: "evalMove (solve params) params [p, q] (Suc 0) m1
      = Some ((valL1 params, emptyResult), m2)"
    using evalMove_withered [of "Suc 0" "[p, q]" params p m1] assms(1,2)
    by (auto simp: o g neighborOf_def nextPlotsA_def nonNeighborsOf_def)
  let ?r = "\<lparr>maxEV = valL1 params, path = [stepDesc p], bestMoveId = Some (plotId p)\<rparr>"
  have u: "[0..<length [p, q]] = [0, Suc 0]"
    by (simp add: upt_rec)
  have "solve_loop (solve_step (solve params) params [p, q]) [0..<length [p, q]]
      (sentinel, clearMemo) = Some (?r, m2)"
    unfolding u using assms(9)
    by (simp add: solve_step_eval [OF e0] solve_step_eval [OF e1] sentinel_def emptyResult_def)
  from solve_computed [OF _ _ this] show ?thesis
    by (simp add: clearMemo_def)
qed

theorem solve_same_field_pair_witness:
  "fieldId pairBlue = fieldId pairPurple
   \<and> probSurvival pairParams = 0
   \<and> probL1toL2 pairParams = 0 \<and> probL2toL3 pairParams = 0 \<and> probL3toL4 pairParams = 0
   \<and> buyCountBlue pairParams = buyCountPurple pairParams
   \<and> buyCountYellow pairParams = buyCountPurple pairParams \<and> 0 < buyCountPurple pairParams
   \<and> - 1 < valL1 pairParams
   \<and> (\<exists>memo'. solve pairParams [pairPurple, pairBlue] clearMemo
           = Some (\<lparr>maxEV = 10, path = [stepDesc pairPurple], bestMoveId = Some ''field1-L''\<rparr>,
                   memo'))"
proof -
  have a: "fieldId pairBlue = fieldId pairPurple" by (simp add: pairBlue_def pairPurple_def)
  have b: "probSurvival pairParams = 0" by (simp add: pairParams_def)
  have c: "probL1toL2 pairParams = 0" "probL2toL3 pairParams = 0" "probL3toL4 pairParams = 0"
    by (simp_all add: pairParams_def)
  have d: "buyCountBlue pairParams = buyCountPurple pairParams"
    "buyCountYellow pairParams = buyCountPurple pairParams" "0 < buyCountPurple pairParams"
    by (simp_all add: pairParams_def)
  have e: "- 1 < valL1 pairParams" by (simp add: pairParams_def)
  have v: "valL1 pairParams = 10" by (simp add: pairParams_def)
  have i: "plotId pairPurple = ''field1-L''" by (simp add: plotId_def pairPurple_def)
  from solve_same_field_pair [OF a b c d e] a b c d e v i show ?thesis by simp
qed

text \<open>The scenario with tier-1 value 10: \<open>maxEV\<close> is 10, not 20, and the path has one step,
  not two.\<close>

theorem solve_same_field_pair_counterexample:
  "map_option (maxEV \<circ> fst) (solve pairParams [pairPurple, pairBlue] clearMemo) = Some 10
   \<and> map_option (length \<circ> path \<circ> fst) (solve pairParams [pairPurple, pairBlue] clearMemo) = Some 1
   \<and> 2 * valL1 pairParams = 20"
  by code_simp

text \<open>
  The tie-break scenario: two plots of the same colour and level in different
  fields, with an immediate gain \<open>g\<close> such that \<open>2 * g > - 1\<close>.  Both totals are \<open>2 * g\<close> and
  the first plot is the best move.
\<close>

lemma solve_single:
  assumes "m (generateKey [x]) = None" and "- 1 < immediateGain params x"
  shows "solve params [x] m
    = Some (\<lparr>maxEV = immediateGain params x, path = [stepDesc x], bestMoveId = Some (plotId x)\<rparr>,
            m(generateKey [x] \<mapsto>
              \<lparr>maxEV = immediateGain params x, path = [stepDesc x], bestMoveId = Some (plotId x)\<rparr>))"
proof -
  have "evalMove (solve params) params [x] 0 m = Some ((immediateGain params x, emptyResult), m)"
    by (simp add: evalMove_def otherPlots_take_drop neighborOf_def nextPlotsA_def
        nonNeighborsOf_def solve_Nil emptyResult_def)
  from solve_step_eval [OF this, of sentinel] assms(2)
  have "solve_loop (solve_step (solve params) params [x]) [0..<length [x]] (sentinel, m)
      = Some (\<lparr>maxEV = immediateGain params x, path = [stepDesc x], bestMoveId = Some (plotId x)\<rparr>, m)"
    by (simp add: sentinel_def emptyResult_def)
  from solve_computed [OF _ assms(1) this] show ?thesis by simp
qed

lemma solve_single_maxEV:
  assumes "- 1 < immediateGain params x" and "solve params [x] m = Some (r, m')"
    and "\<And>c. m (generateKey [x]) = Some c \<Longrightarrow> maxEV c = immediateGain params x"
  shows "maxEV r = immediateGain params x"
proof (cases "m (generateKey [x])")
  case None
  from solve_single [of m x params, OF None assms(1)] assms(2) show ?thesis by auto
next
  case (Some c)
  with assms(2) have "r = c"
    by (subst (asm) solve_unfold) (simp add: solve_body_def)
  with assms(3) [OF Some] show ?thesis by simp
qed

lemma solve_tie_two_plots:
  assumes "fieldId p \<noteq> fieldId q" and "color p = color q" and "k p = k q"
    and "- 1 < 2 * immediateGain params p"
  shows "\<exists>r memo'. solve params [p, q] clearMemo = Some (r, memo')
           \<and> maxEV r = 2 * immediateGain params p \<and> bestMoveId r = Some (plotId p)"
proof -
  let ?g = "immediateGain params p"
  from assms(2,3) have gq: "immediateGain params q = ?g"
    by (simp add: immediateGain_def)
  from assms(4) have g1: "- 1 < ?g" by simp
  have o: "otherPlots [p, q] 0 = [q]" "otherPlots [p, q] (Suc 0) = [p]"
    by (simp_all add: otherPlots_take_drop)
  have nA: "nextPlotsA p [q] = [q]" "nextPlotsA q [p] = [p]"
    using assms(1,2) by (simp_all add: nextPlotsA_def nonNeighborsOf_def globalUpdate_def)
  have nn: "neighborOf p [q] = None" "neighborOf q [p] = None"
    using assms(1) by (auto simp: neighborOf_def)
  let ?rq = "\<lparr>maxEV = ?g, path = [stepDesc q], bestMoveId = Some (plotId q)\<rparr>"
  let ?m1 = "clearMemo(generateKey [q] \<mapsto> ?rq)"
  have sq: "solve params [q] clearMemo = Some (?rq, ?m1)"
    using solve_single [of clearMemo q params] g1 gq by (simp add: clearMemo_def)
  have e0: "evalMove (solve params) params [p, q] 0 clearMemo = Some ((?g + ?g, ?rq), ?m1)"
    by (simp add: evalMove_def o nA nn sq)
  obtain rp m2 where sp: "solve params [p] ?m1 = Some (rp, m2)"
    using solve_fuel_total [of "[p]" "Suc (length [p])" params ?m1]
    by (auto simp: solve_def)
  have "maxEV rp = ?g"
    using g1 sp by (rule solve_single_maxEV) (auto simp: clearMemo_def split: if_splits)
  with sp have e1: "evalMove (solve params) params [p, q] (Suc 0) ?m1 = Some ((?g + ?g, rp), m2)"
    by (simp add: evalMove_def o nA nn gq)
  have t: "moveTotals (solve params) params [p, q] [0, Suc 0] clearMemo = Some [?g + ?g, ?g + ?g]"
    by (simp add: e0 e1)
  have "\<exists>best' m'. solve_loop (solve_step (solve params) params [p, q]) [0, Suc 0] (sentinel, clearMemo)
      = Some (best', m') \<and> maxEV best' = [?g + ?g, ?g + ?g] ! 0
        \<and> bestMoveId best' = Some (plotId ([p, q] ! ([0, Suc 0] ! 0)))"
    using assms(4) by (intro solve_loop_first_max [OF t]) (simp_all add: sentinel_def nth_Cons split: nat.splits)
  then obtain best m' where "solve_loop (solve_step (solve params) params [p, q]) [0..<length [p, q]]
      (sentinel, clearMemo) = Some (best, m')"
    and b: "maxEV best = ?g + ?g" "bestMoveId best = Some (plotId p)"
    by (auto simp: upt_rec)
  from solve_computed [OF _ _ this(1)] b show ?thesis
    by (simp add: clearMemo_def)
qed

section \<open>Why the field identifiers must be free of delimiters\<close>

text \<open>
  When a field identifier contains the delimiters, two different states of one search can
  share a key, and the memo hands the result of one to the other: from a cleared memo
  \<open>solve\<close> returns 5 where the recurrence gives 5 / 2.
\<close>

lemma solve_key_collision:
  "map_option (maxEV \<circ> fst) (solve defaultParams collidePlots clearMemo) = Some 5
   \<and> Max (insert (- 1) (set (map (moveValue (solvedEV defaultParams) defaultParams collidePlots)
         [0..<length collidePlots]))) = 5 / 2"
  by code_simp

lemma distinct_sortKey_sameKeySamePlot:
  assumes "distinct (map sortKey plots)"
  shows "sameKeySamePlot plots"
proof -
  from assms have "inj_on sortKey (set plots)"
    by (simp add: distinct_map)
  then show ?thesis
    by (auto simp: sameKeySamePlot_def list_all_iff comparePlots_eq inj_on_def)
qed

end
